theory Spec2Isabelle
  imports Main "HOL-Library.Sublist"
begin

section \<open>Python strings\<close>

text \<open>
  A Python \<open>str\<close> is a sequence of Unicode code points, so a string is a list of
  natural numbers and its length counts code points. Literals of the source are
  written \<open>lit ''...''\<close>; all of them are ASCII.
\<close>

type_synonym codepoint = nat
type_synonym str = "codepoint list"

definition lit :: "string \<Rightarrow> str" where
  "lit s = map of_char s"

definition semicolon :: codepoint where
  "semicolon = 59"

definition newline :: codepoint where
  "newline = 10"

definition backtick :: codepoint where
  "backtick = 96"

text \<open>
  \<open>str.isspace\<close> on one code point, which is also what \<open>str.strip()\<close> removes and
  what \<open>\s\<close> matches in a \<open>str\<close> pattern: TAB..CR, FS..US, SPACE, NEL, NBSP, OGHAM
  SPACE MARK, EN QUAD..HAIR SPACE, LINE and PARAGRAPH SEPARATOR, NARROW NBSP, MEDIUM
  MATHEMATICAL SPACE, IDEOGRAPHIC SPACE.
\<close>

definition isspace :: "codepoint \<Rightarrow> bool" where
  "isspace c \<longleftrightarrow>
     (9 \<le> c \<and> c \<le> 13) \<or> (28 \<le> c \<and> c \<le> 32) \<or> c = 133 \<or> c = 160 \<or> c = 5760 \<or>
     (8192 \<le> c \<and> c \<le> 8202) \<or> c = 8232 \<or> c = 8233 \<or> c = 8239 \<or> c = 8287 \<or> c = 12288"

definition lstrip :: "str \<Rightarrow> str" where
  "lstrip s = dropWhile isspace s"

definition rstrip :: "str \<Rightarrow> str" where
  "rstrip s = rev (dropWhile isspace (rev s))"

definition strip :: "str \<Rightarrow> str" where
  "strip s = lstrip (rstrip s)"

text \<open>
  \<open>s.split(sep)\<close> for a one-character separator: the fields between the separators,
  never an empty list (\<open>''.split(';') == ['']\<close>).
\<close>

fun split :: "codepoint \<Rightarrow> str \<Rightarrow> str list" where
  "split sep [] = [[]]"
| "split sep (c # cs) =
     (if c = sep then [] # split sep cs
      else (case split sep cs of f # fs \<Rightarrow> (c # f) # fs | [] \<Rightarrow> [[c]]))"

text \<open>
  \<open>str.upper()\<close> maps each code point on its own. On ASCII it maps \<open>a..z\<close> to
  \<open>A..Z\<close> and leaves the rest; beyond ASCII the Unicode case table decides (one code
  point may become several), and that table is the parameter \<open>up\<close>.
\<close>

definition upper_cp :: "(codepoint \<Rightarrow> str) \<Rightarrow> codepoint \<Rightarrow> str" where
  "upper_cp up c =
     (if c < 128 then [if 97 \<le> c \<and> c \<le> 122 then c - 32 else c] else up c)"

definition upper :: "(codepoint \<Rightarrow> str) \<Rightarrow> str \<Rightarrow> str" where
  "upper up s = concat (map (upper_cp up) s)"

section \<open>The regular expressions of \<open>clean_sql_query\<close>\<close>

text \<open>
  The optional \<open>\n?\<close> that ends both fence patterns: greedy, so a newline that
  follows is consumed.
\<close>

definition opt_newline :: "str \<Rightarrow> str" where
  "opt_newline s = (case s of [] \<Rightarrow> [] | c # cs \<Rightarrow> if c = newline then cs else c # cs)"

text \<open>
  \<open>re.sub(pat + r'\n?', '', s)\<close> for a literal, non-empty \<open>pat\<close>: the text is scanned
  from the left; where \<open>pat\<close> starts, it and one following newline are dropped and the
  scan goes on behind them, elsewhere the character is kept.
\<close>

function sub_fence :: "str \<Rightarrow> str \<Rightarrow> str" where
  "sub_fence pat [] = []"
| "sub_fence pat (c # cs) =
     (if pat \<noteq> [] \<and> prefix pat (c # cs)
      then sub_fence pat (opt_newline (drop (length pat) (c # cs)))
      else c # sub_fence pat cs)"
  by pat_completeness auto
termination
proof (relation "measure (\<lambda>(pat, s). length s)")
  show "wf (measure (\<lambda>(pat, s). length s))" by simp
next
  fix pat :: str and c :: codepoint and cs :: str
  assume "pat \<noteq> [] \<and> prefix pat (c # cs)"
  then have "length (drop (length pat) (c # cs)) < length (c # cs)"
    by (cases pat) simp_all
  moreover have "length (opt_newline t) \<le> length t" for t
    by (cases t) (simp_all add: opt_newline_def)
  ultimately have "length (opt_newline (drop (length pat) (c # cs))) < length (c # cs)"
    by (meson le_less_trans)
  then show "((pat, opt_newline (drop (length pat) (c # cs))), (pat, c # cs))
      \<in> measure (\<lambda>(pat, s). length s)"
    by simp
next
  fix pat :: str and c :: codepoint and cs :: str
  show "((pat, cs), (pat, c # cs)) \<in> measure (\<lambda>(pat, s). length s)"
    by simp
qed

text \<open>
  One pattern character against one text character under \<open>re.IGNORECASE\<close>, for the
  pattern characters of the label pattern (\<open>S Q L U E R Y\<close>, the colon and the space):
  an ASCII letter matches both its cases, and \<open>S\<close> also matches U+017F (LATIN SMALL
  LETTER LONG S); any other character matches itself only.
\<close>

definition ieq :: "codepoint \<Rightarrow> codepoint \<Rightarrow> bool" where
  "ieq p x \<longleftrightarrow>
     x = p \<or> (65 \<le> p \<and> p \<le> 90 \<and> x = p + 32) \<or> (97 \<le> p \<and> p \<le> 122 \<and> x + 32 = p) \<or>
     ((p = 83 \<or> p = 115) \<and> x = 383)"

text \<open>Matching a literal at the start of the text: the rest of the text, if it matches.\<close>

fun match_ci :: "str \<Rightarrow> str \<Rightarrow> str option" where
  "match_ci [] s = Some s"
| "match_ci (p # ps) [] = None"
| "match_ci (p # ps) (x # xs) = (if ieq p x then match_ci ps xs else None)"

text \<open>The alternation \<open>(SQL Query:|Query:|SQL:)\<close>, tried in this order.\<close>

definition labels :: "str list" where
  "labels = [lit ''SQL Query:'', lit ''Query:'', lit ''SQL:'']"

fun match_first :: "str list \<Rightarrow> str \<Rightarrow> str option" where
  "match_first [] s = None"
| "match_first (l # ls) s =
     (case match_ci l s of Some r \<Rightarrow> Some r | None \<Rightarrow> match_first ls s)"

section \<open>\<open>clean_sql_query\<close>, line by line\<close>

text \<open>
  \<^verbatim>\<open>sql = re.sub(r'```sql\n?', '', sql)\<close> and then
  \<^verbatim>\<open>sql = re.sub(r'```\n?', '', sql)\<close>.
\<close>

definition remove_code_blocks :: "str \<Rightarrow> str" where
  "remove_code_blocks s = sub_fence (lit ''```'') (sub_fence (lit ''```sql'') s)"

text \<open>
  \<^verbatim>\<open>sql = re.sub(r'^(SQL Query:|Query:|SQL:)\s*', '', sql, flags=re.IGNORECASE)\<close>:
  without \<open>re.MULTILINE\<close> the anchor holds at position 0 only, so at most one
  label, with the whitespace behind it, is removed.
\<close>

definition strip_label :: "str \<Rightarrow> str" where
  "strip_label s =
     (case match_first labels s of Some r \<Rightarrow> dropWhile isspace r | None \<Rightarrow> s)"

text \<open>\<^verbatim>\<open>if ';' in sql: sql = sql.split(';')[0] + ';'\<close>\<close>

definition cut_at_semicolon :: "str \<Rightarrow> str" where
  "cut_at_semicolon s = (if semicolon \<in> set s then hd (split semicolon s) @ [semicolon] else s)"

definition clean_sql_query :: "str \<Rightarrow> str" where
  "clean_sql_query sql_response =
     strip (cut_at_semicolon (strip_label (remove_code_blocks (strip sql_response))))"

section \<open>\<open>format_sql_result\<close>\<close>

definition no_results :: str where
  "no_results = lit ''No results found for your query.''"

text \<open>
  The result is \<open>None\<close> when \<open>execute_sql_safely\<close> returned an error pair, and
  \<open>not result\<close> is true of \<open>None\<close> and of the empty string.
\<close>

definition format_sql_result :: "(codepoint \<Rightarrow> str) \<Rightarrow> str option \<Rightarrow> str \<Rightarrow> str \<Rightarrow> str" where
  "format_sql_result up res question query =
     (case res of
        None \<Rightarrow> no_results
      | Some r \<Rightarrow>
          if r = [] \<or> strip r = [] then no_results
          else if sublist (lit ''COUNT'') (upper up query) then lit ''The result is: '' @ r
          else lit ''Here are the results:'' @ [newline, newline] @ r)"

section \<open>The \<open>/query\<close> handler\<close>

record QueryRequest =
  question :: str

record QueryResponse =
  success :: bool
  result :: "str option"
  sql_query :: "str option"
  error :: "str option"

datatype http_error = HTTPException nat str

text \<open>
  A call that may raise returns \<open>Inl\<close> of the exception's \<open>str(e)\<close>. The database
  handle is its \<open>run\<close> method, the chain its \<open>invoke\<close> method.
\<close>

type_synonym database = "str \<Rightarrow> str + str"
type_synonym chain = "str \<Rightarrow> str + str"

definition execute_sql_safely :: "database \<Rightarrow> str \<Rightarrow> str option \<times> str option" where
  "execute_sql_safely db query =
     (case db query of Inr r \<Rightarrow> (Some r, None) | Inl e \<Rightarrow> (None, Some e))"

text \<open>\<open>if error:\<close> is false of \<open>None\<close> and of the empty string.\<close>

definition truthy :: "str option \<Rightarrow> bool" where
  "truthy v = (case v of None \<Rightarrow> False | Some s \<Rightarrow> s \<noteq> [])"

definition internal_error :: "str \<Rightarrow> http_error" where
  "internal_error e = HTTPException 500 (lit ''Internal server error: '' @ e)"

text \<open>
  \<open>init_database\<close> and \<open>create_sql_chain\<close> either raise or give the handle; every
  exception inside the handler's \<open>try\<close> becomes the HTTP 500 error.
\<close>

definition process_query ::
  "(codepoint \<Rightarrow> str) \<Rightarrow> str + database \<Rightarrow> str + chain \<Rightarrow> QueryRequest
     \<Rightarrow> http_error + QueryResponse" where
  "process_query up init_database create_sql_chain request =
     (case init_database of
        Inl e \<Rightarrow> Inl (internal_error e)
      | Inr db \<Rightarrow>
         (case create_sql_chain of
            Inl e \<Rightarrow> Inl (internal_error e)
          | Inr ch \<Rightarrow>
             (case ch (question request) of
                Inl e \<Rightarrow> Inl (internal_error e)
              | Inr raw_sql \<Rightarrow>
                 (let cleaned_sql = clean_sql_query raw_sql;
                      (res, err) = execute_sql_safely db cleaned_sql
                  in if truthy err
                     then Inr \<lparr>success = False, result = None, sql_query = Some cleaned_sql,
                               error = Some (lit ''SQL execution error: '' @ the err)\<rparr>
                     else Inr \<lparr>success = True,
                               result = Some (format_sql_result up res (question request) cleaned_sql),
                               sql_query = Some cleaned_sql, error = None\<rparr>))))"

section \<open>Notions of the specification\<close>

text \<open>Two characters that differ at most in the case of an ASCII letter.\<close>

definition ascii_lower :: "codepoint \<Rightarrow> codepoint" where
  "ascii_lower c = (if 65 \<le> c \<and> c \<le> 90 then c + 32 else c)"

text \<open>A text is a letter-case variant of a literal.\<close>

definition case_variant :: "str \<Rightarrow> str \<Rightarrow> bool" where
  "case_variant l t \<longleftrightarrow> map ascii_lower t = map ascii_lower l"

text \<open>A text contains a token in some letter case.\<close>

fun contains_ci :: "str \<Rightarrow> str \<Rightarrow> bool" where
  "contains_ci tok [] = (tok = [])"
| "contains_ci tok (c # cs) =
     (case_variant tok (take (length tok) (c # cs)) \<or> contains_ci tok cs)"

text \<open>The fence marker, as a text.\<close>

definition fence :: str where
  "fence = [backtick, backtick, backtick]"

section \<open>Whitespace stripping and splitting\<close>

lemma lit_simps: "lit [] = []" "lit (c # cs) = of_char c # lit cs"
  by (simp_all add: lit_def)

lemma semicolon_not_space: "\<not> isspace semicolon"
  by (simp add: isspace_def semicolon_def)

lemma dropWhile_snoc: "\<not> P c \<Longrightarrow> dropWhile P (xs @ [c]) = dropWhile P xs @ [c]"
  by (induction xs) simp_all

lemma strip_snoc: "\<not> isspace c \<Longrightarrow> strip (xs @ [c]) = lstrip xs @ [c]"
  by (simp add: strip_def rstrip_def lstrip_def dropWhile_snoc)

lemma rstrip_prefix: "\<exists>zs. s = rstrip s @ zs"
proof -
  have "rev s = takeWhile isspace (rev s) @ dropWhile isspace (rev s)" by simp
  then have "s = rev (dropWhile isspace (rev s)) @ rev (takeWhile isspace (rev s))"
    by (metis rev_append rev_rev_ident)
  then show ?thesis unfolding rstrip_def by blast
qed

lemma lstrip_suffix: "\<exists>ps. s = ps @ lstrip s"
  unfolding lstrip_def by (metis takeWhile_dropWhile_id)

lemma strip_sublist: "sublist (strip s) s"
proof -
  obtain zs where z: "s = rstrip s @ zs" using rstrip_prefix by blast
  obtain ps where p: "rstrip s = ps @ strip s" unfolding strip_def using lstrip_suffix by blast
  have "s = ps @ strip s @ zs" using z p by (metis append.assoc)
  then show ?thesis unfolding sublist_def by blast
qed

lemma set_strip_subset: "set (strip s) \<subseteq> set s"
  using strip_sublist by (meson set_mono_sublist)

lemma length_strip_le: "length (strip s) \<le> length s"
  using strip_sublist by (meson sublist_length_le)

lemma nonspace_in_lstrip: "x \<in> set s \<Longrightarrow> \<not> isspace x \<Longrightarrow> x \<in> set (lstrip s)"
  unfolding lstrip_def by (induction s) auto

lemma nonspace_in_rstrip: "x \<in> set s \<Longrightarrow> \<not> isspace x \<Longrightarrow> x \<in> set (rstrip s)"
proof -
  assume a: "x \<in> set s" "\<not> isspace x"
  then have "x \<in> set (dropWhile isspace (rev s))"
    using nonspace_in_lstrip[of x "rev s"] by (simp add: lstrip_def)
  then show ?thesis by (simp add: rstrip_def)
qed

lemma nonspace_in_strip: "x \<in> set s \<Longrightarrow> \<not> isspace x \<Longrightarrow> x \<in> set (strip s)"
  by (simp add: strip_def nonspace_in_lstrip nonspace_in_rstrip)

lemma lstrip_id: "s = [] \<or> \<not> isspace (hd s) \<Longrightarrow> lstrip s = s"
  unfolding lstrip_def by (cases s) auto

lemma rstrip_id: "s = [] \<or> \<not> isspace (last s) \<Longrightarrow> rstrip s = s"
  unfolding rstrip_def by (cases s rule: rev_cases) auto

lemma lstrip_hd: "lstrip s \<noteq> [] \<Longrightarrow> \<not> isspace (hd (lstrip s))"
  unfolding lstrip_def by (metis hd_dropWhile)

lemma rstrip_last: "rstrip s \<noteq> [] \<Longrightarrow> \<not> isspace (last (rstrip s))"
  unfolding rstrip_def by (metis hd_dropWhile last_rev rev_is_Nil_conv)

lemma lstrip_last: "lstrip s \<noteq> [] \<Longrightarrow> last (lstrip s) = last s"
  unfolding lstrip_def by (induction s) (auto split: if_splits)

lemma strip_hd: "strip s \<noteq> [] \<Longrightarrow> \<not> isspace (hd (strip s))"
  unfolding strip_def by (rule lstrip_hd)

lemma strip_last: "strip s \<noteq> [] \<Longrightarrow> \<not> isspace (last (strip s))"
proof -
  assume a: "strip s \<noteq> []"
  then have "rstrip s \<noteq> []" by (auto simp: strip_def lstrip_def)
  then have "\<not> isspace (last (rstrip s))" by (rule rstrip_last)
  moreover have "last (strip s) = last (rstrip s)"
    using a unfolding strip_def by (rule lstrip_last)
  ultimately show ?thesis by simp
qed

lemma strip_id: "s = [] \<or> (\<not> isspace (hd s) \<and> \<not> isspace (last s)) \<Longrightarrow> strip s = s"
  unfolding strip_def using lstrip_id rstrip_id by (metis)

lemma strip_strip: "strip (strip s) = strip s"
  using strip_id[of "strip s"] strip_hd[of s] strip_last[of s] by blast

lemma split_not_Nil: "split sep s \<noteq> []"
  by (induction s) (auto split: list.splits)

lemma hd_split: "hd (split sep s) = takeWhile (\<lambda>c. c \<noteq> sep) s"
  by (induction s) (auto split: list.splits simp: split_not_Nil)

lemma cut_at_semicolon_eq:
  "cut_at_semicolon s =
     (if semicolon \<in> set s then takeWhile (\<lambda>c. c \<noteq> semicolon) s @ [semicolon] else s)"
  by (simp add: cut_at_semicolon_def hd_split)

lemma length_cut_le: "length (cut_at_semicolon s) \<le> length s"
proof (cases "semicolon \<in> set s")
  case True
  then have "length (takeWhile (\<lambda>c. c \<noteq> semicolon) s) < length s"
    by (induction s) auto
  then show ?thesis using True by (simp add: cut_at_semicolon_eq)
next
  case False
  then show ?thesis by (simp add: cut_at_semicolon_eq)
qed

section \<open>Removing the code fences\<close>

lemma lit_fence: "lit ''```'' = fence"
  by (simp add: lit_def fence_def backtick_def)

lemma lit_fence_sql: "lit ''```sql'' = fence @ lit ''sql''"
  by (simp add: lit_def fence_def backtick_def)

lemma set_opt_newline: "set (opt_newline s) \<subseteq> set s"
  by (cases s) (auto simp: opt_newline_def)

lemma set_sub_fence: "set (sub_fence pat s) \<subseteq> set s"
proof (induction pat s rule: sub_fence.induct)
  case (1 pat)
  show ?case by simp
next
  case (2 pat c cs)
  show ?case
  proof (cases "pat \<noteq> [] \<and> prefix pat (c # cs)")
    case True
    have "set (sub_fence pat (opt_newline (drop (length pat) (c # cs))))
        \<subseteq> set (opt_newline (drop (length pat) (c # cs)))"
      using 2(1) True by blast
    also have "\<dots> \<subseteq> set (drop (length pat) (c # cs))" by (rule set_opt_newline)
    also have "\<dots> \<subseteq> set (c # cs)" by (rule set_drop_subset)
    finally show ?thesis using True by simp
  next
    case False
    then show ?thesis using 2(2) by auto
  qed
qed

lemma kept_by_opt_newline: "x \<in> set s \<Longrightarrow> x \<noteq> newline \<Longrightarrow> x \<in> set (opt_newline s)"
  by (cases s) (auto simp: opt_newline_def)

lemma kept_by_sub_fence:
  "x \<in> set s \<Longrightarrow> x \<notin> set pat \<Longrightarrow> x \<noteq> newline \<Longrightarrow> x \<in> set (sub_fence pat s)"
proof (induction pat s rule: sub_fence.induct)
  case (1 pat)
  then show ?case by simp
next
  case (2 pat c cs)
  show ?case
  proof (cases "pat \<noteq> [] \<and> prefix pat (c # cs)")
    case True
    then obtain zs where zs: "c # cs = pat @ zs" by (auto simp: prefix_def)
    then have "drop (length pat) (c # cs) = zs" by simp
    moreover have "x \<in> set zs" using zs 2(3,4) by (metis Un_iff set_append)
    ultimately have "x \<in> set (opt_newline (drop (length pat) (c # cs)))"
      using 2(5) by (simp add: kept_by_opt_newline)
    then have "x \<in> set (sub_fence pat (opt_newline (drop (length pat) (c # cs))))"
      using 2(1) True 2(4,5) by blast
    then show ?thesis using True by simp
  next
    case False
    then show ?thesis using 2 by auto
  qed
qed

lemma sub_fence_no_match: "\<not> sublist pat s \<Longrightarrow> sub_fence pat s = s"
proof (induction s)
  case Nil
  show ?case by simp
next
  case (Cons c cs)
  then have "\<not> prefix pat (c # cs)" "\<not> sublist pat cs"
    by (auto simp: sublist_Cons_right)
  then show ?case using Cons.IH by simp
qed

lemma sub_fence_skip:
  "pat \<noteq> [] \<Longrightarrow> hd pat \<notin> set l \<Longrightarrow> sub_fence pat (l @ r) = l @ sub_fence pat r"
proof (induction l)
  case Nil
  show ?case by simp
next
  case (Cons a l)
  then have "\<not> prefix pat (a # l @ r)" by (cases pat) auto
  then show ?case using Cons by simp
qed

lemma fence_prefix_iff:
  "prefix fence s \<longleftrightarrow> (\<exists>r. s = backtick # backtick # backtick # r)"
  by (auto simp: fence_def prefix_def)

lemma sub_fence_fence_head:
  "\<not> prefix fence (c # cs) \<Longrightarrow> \<not> prefix fence (c # sub_fence fence cs)"
proof (cases cs)
  case Nil
  then show ?thesis by (simp add: fence_def)
next
  case (Cons d ds)
  note cs = Cons
  assume np: "\<not> prefix fence (c # cs)"
  show ?thesis
  proof (cases "c = backtick \<and> d = backtick")
    case False
    show ?thesis
    proof (cases "c = backtick")
      case False
      then show ?thesis by (simp add: fence_def)
    next
      case True
      then have d: "d \<noteq> backtick" using False by simp
      then have "\<not> prefix fence (d # ds)" by (simp add: fence_def)
      then have "sub_fence fence cs = d # sub_fence fence ds" using cs by simp
      then show ?thesis using d by (simp add: fence_def)
    qed
  next
    case True
    show ?thesis
    proof (cases ds)
      case Nil
      then show ?thesis using cs True by (simp add: fence_def)
    next
      case (Cons e es)
      then have e: "e \<noteq> backtick" using np cs True by (auto simp: fence_def)
      then have "\<not> prefix fence (d # ds)" "\<not> prefix fence (e # es)"
        using Cons by (auto simp: fence_def)
      then have "sub_fence fence cs = d # e # sub_fence fence es"
        using cs Cons by simp
      then show ?thesis using e by (simp add: fence_def)
    qed
  qed
qed

lemma sub_fence_no_fence: "\<not> sublist fence (sub_fence fence s)"
proof (induction fence s rule: sub_fence.induct)
  case 1
  show ?case by (simp add: fence_def)
next
  case (2 c cs)
  show ?case
  proof (cases "fence \<noteq> [] \<and> prefix fence (c # cs)")
    case True
    then show ?thesis using 2(1) by simp
  next
    case False
    then have np: "\<not> prefix fence (c # cs)" by (simp add: fence_def)
    then have "\<not> prefix fence (c # sub_fence fence cs)" by (rule sub_fence_fence_head)
    moreover have "\<not> sublist fence (sub_fence fence cs)" using 2(2) False by blast
    ultimately show ?thesis using np by (simp add: sublist_Cons_right)
  qed
qed

lemma remove_code_blocks_no_fence: "\<not> sublist fence (remove_code_blocks s)"
  by (simp add: remove_code_blocks_def lit_fence sub_fence_no_fence)

lemma remove_code_blocks_id: "\<not> sublist fence s \<Longrightarrow> remove_code_blocks s = s"
proof -
  assume a: "\<not> sublist fence s"
  have "sublist fence (lit ''```sql'')" by (simp add: lit_fence_sql)
  then have "\<not> sublist (lit ''```sql'') s"
    using a by (meson sublist_order.order_trans)
  then show ?thesis using a
    by (simp add: remove_code_blocks_def sub_fence_no_match lit_fence)
qed

lemma remove_code_blocks_skip:
  "backtick \<notin> set l \<Longrightarrow> remove_code_blocks (l @ r) = l @ remove_code_blocks r"
  by (simp add: remove_code_blocks_def sub_fence_skip lit_fence lit_fence_sql fence_def)

lemma semicolon_kept_by_remove_code_blocks:
  "semicolon \<in> set s \<Longrightarrow> semicolon \<in> set (remove_code_blocks s)"
  unfolding remove_code_blocks_def
  by (intro kept_by_sub_fence) (simp_all add: lit_def semicolon_def newline_def)

lemma set_remove_code_blocks: "set (remove_code_blocks s) \<subseteq> set s"
  unfolding remove_code_blocks_def using set_sub_fence by (meson subset_trans)

section \<open>Stripping the label\<close>

lemma match_ci_split:
  "match_ci l s = Some r \<Longrightarrow> \<exists>p. s = p @ r \<and> list_all2 ieq l p"
proof (induction l s rule: match_ci.induct)
  case (1 s)
  then show ?case by simp
next
  case (2 p ps)
  then show ?case by simp
next
  case (3 p ps x xs)
  then have i: "ieq p x" and m: "match_ci ps xs = Some r" by (auto split: if_splits)
  from 3(1)[OF i m] obtain q where "xs = q @ r" "list_all2 ieq ps q" by blast
  then have "x # xs = (x # q) @ r \<and> list_all2 ieq (p # ps) (x # q)" using i by simp
  then show ?case by blast
qed

lemma match_first_split:
  "match_first ls s = Some r \<Longrightarrow> \<exists>l p. l \<in> set ls \<and> s = p @ r \<and> list_all2 ieq l p"
proof (induction ls)
  case Nil
  then show ?case by simp
next
  case (Cons l ls)
  show ?case
  proof (cases "match_ci l s")
    case None
    then show ?thesis using Cons by auto
  next
    case (Some r')
    then have "r' = r" using Cons.prems by simp
    then show ?thesis using match_ci_split[of l s r] Some by auto
  qed
qed

lemma strip_label_suffix: "suffix (strip_label s) s"
proof (cases "match_first labels s")
  case None
  then show ?thesis by (simp add: strip_label_def)
next
  case (Some r)
  then obtain p where "s = p @ r" using match_first_split by blast
  then have "suffix r s" by (simp add: suffix_def)
  moreover have "suffix (dropWhile isspace r) r" by (rule suffix_dropWhile)
  ultimately show ?thesis using Some by (auto simp: strip_label_def intro: suffix_order.trans)
qed

lemma length_strip_label_le: "length (strip_label s) \<le> length s"
  using strip_label_suffix by (meson suffix_length_le)

lemma label_nonempty: "l \<in> set labels \<Longrightarrow> l \<noteq> []"
  by (auto simp: labels_def lit_def)

lemma strip_label_shorter:
  "match_first labels s \<noteq> None \<Longrightarrow> length (strip_label s) < length s"
proof -
  assume "match_first labels s \<noteq> None"
  then obtain r where r: "match_first labels s = Some r" by blast
  then obtain l p where lp: "l \<in> set labels" "s = p @ r" "list_all2 ieq l p"
    using match_first_split by blast
  then have "p \<noteq> []" using label_nonempty by (metis list_all2_Nil2)
  then have "length r < length s" using lp(2) by simp
  moreover have "length (dropWhile isspace r) \<le> length r" by (rule length_dropWhile_le)
  ultimately show ?thesis using r by (simp add: strip_label_def)
qed

lemma label_chars_not_semicolon:
  "l \<in> set labels \<Longrightarrow> q \<in> set l \<Longrightarrow> \<not> ieq q semicolon"
  by (auto simp: labels_def lit_def ieq_def semicolon_def)

lemma semicolon_kept_by_strip_label:
  "semicolon \<in> set s \<Longrightarrow> semicolon \<in> set (strip_label s)"
proof (cases "match_first labels s")
  case None
  assume "semicolon \<in> set s"
  then show ?thesis using None by (simp add: strip_label_def)
next
  case (Some r)
  assume a: "semicolon \<in> set s"
  obtain l p where lp: "l \<in> set labels" "s = p @ r" "list_all2 ieq l p"
    using Some match_first_split by blast
  have "semicolon \<notin> set p"
  proof
    assume "semicolon \<in> set p"
    then obtain i where "i < length p" "p ! i = semicolon" by (meson in_set_conv_nth)
    then have "ieq (l ! i) semicolon" "l ! i \<in> set l"
      using lp(3) by (auto simp: list_all2_conv_all_nth)
    then show False using label_chars_not_semicolon lp(1) by blast
  qed
  then have "semicolon \<in> set r" using a lp(2) by simp
  then have "semicolon \<in> set (lstrip r)" using semicolon_not_space by (rule nonspace_in_lstrip)
  then show ?thesis using Some by (simp add: strip_label_def lstrip_def)
qed

lemma set_strip_label: "set (strip_label s) \<subseteq> set s"
  using strip_label_suffix by (meson set_mono_suffix)

section \<open>The cleaning pipeline\<close>

lemmas eval_defs = clean_sql_query_def strip_def lstrip_def rstrip_def isspace_def
  cut_at_semicolon_def strip_label_def remove_code_blocks_def labels_def lit_def
  semicolon_def newline_def backtick_def opt_newline_def ieq_def fence_def

lemma semicolon_reaches_cut:
  "semicolon \<in> set s \<Longrightarrow> semicolon \<in> set (strip_label (remove_code_blocks (strip s)))"
  by (intro semicolon_kept_by_strip_label semicolon_kept_by_remove_code_blocks
      nonspace_in_strip semicolon_not_space)

lemma semicolon_from_input:
  "semicolon \<in> set (strip_label (remove_code_blocks (strip s))) \<Longrightarrow> semicolon \<in> set s"
  using set_strip_label set_remove_code_blocks set_strip_subset by blast

lemma clean_with_semicolon:
  assumes "semicolon \<in> set s"
  shows "clean_sql_query s =
    lstrip (takeWhile (\<lambda>c. c \<noteq> semicolon) (strip_label (remove_code_blocks (strip s))))
      @ [semicolon]"
proof -
  have "semicolon \<in> set (strip_label (remove_code_blocks (strip s)))"
    using assms by (rule semicolon_reaches_cut)
  then show ?thesis
    by (simp add: clean_sql_query_def cut_at_semicolon_eq strip_snoc semicolon_not_space)
qed

lemma clean_without_semicolon:
  assumes "semicolon \<notin> set (strip_label (remove_code_blocks (strip s)))"
  shows "clean_sql_query s = strip (strip_label (remove_code_blocks (strip s)))"
  using assms by (simp add: clean_sql_query_def cut_at_semicolon_eq)

lemma semicolon_not_in_lstrip_takeWhile:
  "semicolon \<notin> set (lstrip (takeWhile (\<lambda>c. c \<noteq> semicolon) t))"
proof -
  have "set (lstrip (takeWhile (\<lambda>c. c \<noteq> semicolon) t))
      \<subseteq> set (takeWhile (\<lambda>c. c \<noteq> semicolon) t)"
    unfolding lstrip_def by (rule set_dropWhileD[THEN subsetI])
  moreover have "semicolon \<notin> set (takeWhile (\<lambda>c. c \<noteq> semicolon) t)"
    using set_takeWhileD[of semicolon "\<lambda>c. c \<noteq> semicolon" t] by blast
  ultimately show ?thesis by blast
qed

lemma sublist_snoc_absent: "sublist p (xs @ [c]) \<Longrightarrow> c \<notin> set p \<Longrightarrow> sublist p xs"
proof -
  assume a: "sublist p (xs @ [c])" and n: "c \<notin> set p"
  show ?thesis
  proof (cases "suffix p (xs @ [c])")
    case False
    moreover from a have "suffix p (xs @ [c]) \<or> sublist p xs"
      by (simp only: sublist_snoc)
    ultimately show ?thesis by blast
  next
    case True
    then obtain zs where z: "xs @ [c] = zs @ p" by (auto simp: suffix_def)
    show ?thesis
    proof (cases p rule: rev_cases)
      case Nil
      then show ?thesis by simp
    next
      case (snoc p' d)
      then have "d = c" using z by (metis append.assoc snoc_eq_iff_butlast last_snoc)
      then show ?thesis using n snoc by simp
    qed
  qed
qed

lemma cut_keeps_no_fence:
  "sublist fence (cut_at_semicolon t) \<Longrightarrow> sublist fence t"
proof (cases "semicolon \<in> set t")
  case False
  assume "sublist fence (cut_at_semicolon t)"
  then show ?thesis using False by (simp add: cut_at_semicolon_eq)
next
  case True
  assume "sublist fence (cut_at_semicolon t)"
  then have "sublist fence (takeWhile (\<lambda>c. c \<noteq> semicolon) t @ [semicolon])"
    using True by (simp add: cut_at_semicolon_eq)
  moreover have "semicolon \<notin> set fence" by (simp add: fence_def semicolon_def backtick_def)
  ultimately have "sublist fence (takeWhile (\<lambda>c. c \<noteq> semicolon) t)"
    by (rule sublist_snoc_absent)
  moreover have "sublist (takeWhile (\<lambda>c. c \<noteq> semicolon) t) t"
    by (metis sublist_append_rightI takeWhile_dropWhile_id)
  ultimately show ?thesis by (rule sublist_order.order_trans)
qed

lemma clean_no_fence: "\<not> sublist fence (clean_sql_query s)"
proof
  assume "sublist fence (clean_sql_query s)"
  then have "sublist fence (cut_at_semicolon (strip_label (remove_code_blocks (strip s))))"
    unfolding clean_sql_query_def using strip_sublist by (meson sublist_order.order_trans)
  then have "sublist fence (strip_label (remove_code_blocks (strip s)))"
    by (rule cut_keeps_no_fence)
  then have "sublist fence (remove_code_blocks (strip s))"
    using strip_label_suffix by (meson suffix_imp_sublist sublist_order.order_trans)
  then show False using remove_code_blocks_no_fence by blast
qed

section \<open>Formatting and the handler\<close>

lemma strip_empty_iff: "strip r = [] \<longleftrightarrow> (\<forall>c\<in>set r. isspace c)"
proof
  assume e: "strip r = []"
  show "\<forall>c\<in>set r. isspace c"
  proof (rule ccontr)
    assume "\<not> (\<forall>c\<in>set r. isspace c)"
    then obtain c where "c \<in> set r" "\<not> isspace c" by blast
    then have "c \<in> set (strip r)" by (rule nonspace_in_strip)
    then show False using e by simp
  qed
next
  assume a: "\<forall>c\<in>set r. isspace c"
  then have "rstrip r = []" by (simp add: rstrip_def)
  then show "strip r = []" by (simp add: strip_def lstrip_def)
qed

lemma upper_append: "upper up (xs @ ys) = upper up xs @ upper up ys"
  by (simp add: upper_def)

lemma upper_cp_variant:
  assumes "65 \<le> p" "p \<le> 90" "ascii_lower x = ascii_lower p"
  shows "upper_cp up x = [p]"
proof -
  have "x = p \<or> x = p + 32"
    using assms by (auto simp: ascii_lower_def split: if_splits)
  then show ?thesis using assms(1,2) by (auto simp: upper_cp_def)
qed

lemma upper_case_variant:
  "\<forall>p\<in>set tok. 65 \<le> p \<and> p \<le> 90 \<Longrightarrow> case_variant tok t \<Longrightarrow> upper up t = tok"
proof (induction tok arbitrary: t)
  case Nil
  then show ?case by (simp add: case_variant_def upper_def)
next
  case (Cons p ps)
  from Cons.prems(2) obtain x xs where t: "t = x # xs"
    and x: "ascii_lower x = ascii_lower p" and xs: "case_variant ps xs"
    by (auto simp: case_variant_def map_eq_Cons_conv)
  have "upper_cp up x = [p]" using Cons.prems(1) x by (simp add: upper_cp_variant)
  moreover have "upper up xs = ps" using Cons.IH Cons.prems(1) xs by simp
  ultimately show ?case using t by (simp add: upper_def)
qed

lemma contains_ci_upper:
  assumes "\<forall>p\<in>set tok. 65 \<le> p \<and> p \<le> 90" "contains_ci tok q"
  shows "sublist tok (upper up q)"
  using assms(2)
proof (induction q)
  case Nil
  then show ?case by simp
next
  case (Cons c cs)
  show ?case
  proof (cases "case_variant tok (take (length tok) (c # cs))")
    case True
    then have "upper up (take (length tok) (c # cs)) = tok"
      using assms(1) by (rule upper_case_variant[rotated])
    moreover have "upper up (c # cs) =
        upper up (take (length tok) (c # cs)) @ upper up (drop (length tok) (c # cs))"
      by (metis append_take_drop_id upper_append)
    ultimately show ?thesis by (metis sublist_append_rightI)
  next
    case False
    then have "sublist tok (upper up cs)" using Cons by simp
    then have "sublist tok (upper up [c] @ upper up cs)"
      by (metis sublist_append_leftI sublist_order.order_trans)
    then show ?thesis using upper_append[of up "[c]" cs] by simp
  qed
qed

lemma count_upper: "\<forall>p\<in>set (lit ''COUNT''). 65 \<le> p \<and> p \<le> 90"
  by (simp add: lit_def)

lemma process_query_db_error:
  assumes "init_database = Inr db" "create_sql_chain = Inr ch"
    "ch (question request) = Inr raw" "db (clean_sql_query raw) = Inl e" "e \<noteq> []"
  shows "process_query up init_database create_sql_chain request =
    Inr \<lparr>success = False, result = None, sql_query = Some (clean_sql_query raw),
         error = Some (lit ''SQL execution error: '' @ e)\<rparr>"
  using assms by (simp add: process_query_def execute_sql_safely_def truthy_def)

section \<open>The leading label, and a second pass\<close>

lemma ieq_of_ascii_lower: "ascii_lower x = ascii_lower p \<Longrightarrow> ieq p x"
  by (auto simp: ascii_lower_def ieq_def split: if_splits)

lemma match_ci_case_variant: "case_variant l t \<Longrightarrow> match_ci l (t @ r) = Some r"
proof (induction l arbitrary: t)
  case Nil
  then show ?case by (simp add: case_variant_def)
next
  case (Cons p ps)
  then obtain x xs where t: "t = x # xs"
    and x: "ascii_lower x = ascii_lower p" and xs: "case_variant ps xs"
    by (auto simp: case_variant_def map_eq_Cons_conv)
  then show ?case using Cons.IH ieq_of_ascii_lower by simp
qed

lemma label_lowered:
  "map ascii_lower (lit ''SQL Query:'') = [115, 113, 108, 32, 113, 117, 101, 114, 121, 58]"
  "map ascii_lower (lit ''Query:'') = [113, 117, 101, 114, 121, 58]"
  "map ascii_lower (lit ''SQL:'') = [115, 113, 108, 58]"
  by (simp_all add: lit_def ascii_lower_def)

lemma not_ieq_S: "ascii_lower x = 113 \<Longrightarrow> \<not> ieq 83 x"
  by (auto simp: ieq_def ascii_lower_def)

lemma not_ieq_Q: "ascii_lower x = 115 \<Longrightarrow> \<not> ieq 81 x"
  by (auto simp: ieq_def ascii_lower_def)

lemma lower_colon: "ascii_lower x = 58 \<Longrightarrow> x = 58"
  by (auto simp: ascii_lower_def split: if_splits)

lemma match_first_case_variant:
  assumes "l \<in> set labels" "case_variant l t"
  shows "match_first labels (t @ r) = Some r"
proof -
  have m: "match_ci l (t @ r) = Some r" using assms(2) by (rule match_ci_case_variant)
  consider "l = lit ''SQL Query:''" | "l = lit ''Query:''" | "l = lit ''SQL:''"
    using assms(1) by (auto simp: labels_def)
  then show ?thesis
  proof cases
    case 1
    then show ?thesis using m by (simp add: labels_def)
  next
    case 2
    then have "map ascii_lower t = [113, 117, 101, 114, 121, 58]"
      using assms(2) by (simp only: case_variant_def label_lowered)
    then obtain x xs where t: "t = x # xs" and x: "ascii_lower x = 113"
      by (auto simp: map_eq_Cons_conv)
    have "\<not> ieq 83 x" using x by (rule not_ieq_S)
    then have "match_ci (lit ''SQL Query:'') (t @ r) = None" using t by (simp add: lit_def)
    then show ?thesis using m 2 by (simp add: labels_def)
  next
    case 3
    then have "map ascii_lower t = [115, 113, 108, 58]"
      using assms(2) by (simp only: case_variant_def label_lowered)
    then obtain a b c d where t: "t = [a, b, c, d]" and a: "ascii_lower a = 115"
      and d: "ascii_lower d = 58"
      by (auto simp: map_eq_Cons_conv)
    have d': "d = 58" using d by (rule lower_colon)
    have "\<not> ieq 81 a" using a by (rule not_ieq_Q)
    then have q: "match_ci (lit ''Query:'') (t @ r) = None" using t by (simp add: lit_def)
    have "\<not> ieq 32 58" by (simp add: ieq_def)
    then have "match_ci (lit ''SQL Query:'') (t @ r) = None"
      using t d' by (simp add: lit_def)
    then show ?thesis using m q 3 by (simp add: labels_def)
  qed
qed

lemma label_variant_no_backtick:
  assumes "l \<in> set labels" "case_variant l t"
  shows "backtick \<notin> set t"
proof
  assume "backtick \<in> set t"
  then have "ascii_lower backtick \<in> ascii_lower ` set t" by (rule imageI)
  then have "ascii_lower backtick \<in> set (map ascii_lower t)" by simp
  then have "ascii_lower backtick \<in> set (map ascii_lower l)"
    using assms(2) by (simp only: case_variant_def)
  moreover have "ascii_lower backtick = 96" by (simp add: ascii_lower_def backtick_def)
  moreover have "96 \<notin> set (map ascii_lower l)"
  proof -
    consider "l = lit ''SQL Query:''" | "l = lit ''Query:''" | "l = lit ''SQL:''"
      using assms(1) by (auto simp: labels_def)
    then show ?thesis by cases (simp_all only: label_lowered, simp_all)
  qed
  ultimately show False by simp
qed

lemma clean_strips_leading_label:
  assumes "l \<in> set labels" "case_variant l t" "strip s = t @ rest"
  shows "clean_sql_query s = strip (cut_at_semicolon (lstrip (remove_code_blocks rest)))"
proof -
  have "backtick \<notin> set t" using assms(1,2) by (rule label_variant_no_backtick)
  then have "remove_code_blocks (strip s) = t @ remove_code_blocks rest"
    using assms(3) by (simp add: remove_code_blocks_skip)
  moreover have "match_first labels (t @ remove_code_blocks rest) = Some (remove_code_blocks rest)"
    using assms(1,2) by (rule match_first_case_variant)
  ultimately have "strip_label (remove_code_blocks (strip s)) = lstrip (remove_code_blocks rest)"
    by (simp add: strip_label_def lstrip_def)
  then show ?thesis by (simp add: clean_sql_query_def)
qed

lemma cut_fixed:
  "semicolon \<notin> set b \<Longrightarrow> cut_at_semicolon (b @ [semicolon]) = b @ [semicolon]"
proof -
  assume "semicolon \<notin> set b"
  then have "takeWhile (\<lambda>c. c \<noteq> semicolon) (b @ [semicolon]) = b"
    by (induction b) auto
  then show ?thesis by (simp add: cut_at_semicolon_eq)
qed

lemma clean_output_shape:
  "semicolon \<notin> set (clean_sql_query s) \<or>
   (\<exists>b. clean_sql_query s = b @ [semicolon] \<and> semicolon \<notin> set b)"
proof (cases "semicolon \<in> set s")
  case True
  let ?b = "lstrip (takeWhile (\<lambda>c. c \<noteq> semicolon) (strip_label (remove_code_blocks (strip s))))"
  have "clean_sql_query s = ?b @ [semicolon]" using True by (rule clean_with_semicolon)
  moreover have "semicolon \<notin> set ?b" by (rule semicolon_not_in_lstrip_takeWhile)
  ultimately show ?thesis by blast
next
  case False
  have n: "semicolon \<notin> set (strip_label (remove_code_blocks (strip s)))"
  proof
    assume "semicolon \<in> set (strip_label (remove_code_blocks (strip s)))"
    then have "semicolon \<in> set s" by (rule semicolon_from_input)
    then show False using False by simp
  qed
  then have c: "clean_sql_query s = strip (strip_label (remove_code_blocks (strip s)))"
    by (rule clean_without_semicolon)
  have "set (strip (strip_label (remove_code_blocks (strip s))))
      \<subseteq> set (strip_label (remove_code_blocks (strip s)))"
    by (rule set_strip_subset)
  then have "semicolon \<notin> set (clean_sql_query s)" using n c by auto
  then show ?thesis by simp
qed

lemma cut_clean: "cut_at_semicolon (clean_sql_query s) = clean_sql_query s"
proof (cases "semicolon \<in> set (clean_sql_query s)")
  case False
  then show ?thesis by (simp add: cut_at_semicolon_eq)
next
  case True
  then obtain b where "clean_sql_query s = b @ [semicolon]" "semicolon \<notin> set b"
    using clean_output_shape by blast
  then show ?thesis by (simp add: cut_fixed)
qed

lemma strip_clean: "strip (clean_sql_query s) = clean_sql_query s"
  by (simp add: clean_sql_query_def strip_strip)

lemma clean_twice_without_label:
  assumes "match_first labels (clean_sql_query s) = None"
  shows "clean_sql_query (clean_sql_query s) = clean_sql_query s"
proof -
  let ?t = "clean_sql_query s"
  have "remove_code_blocks (strip ?t) = ?t"
    using clean_no_fence by (simp add: strip_clean remove_code_blocks_id)
  moreover have "strip_label ?t = ?t" using assms by (simp add: strip_label_def)
  ultimately have "clean_sql_query ?t = strip (cut_at_semicolon ?t)"
    by (simp add: clean_sql_query_def[of ?t])
  then show ?thesis by (simp add: cut_clean strip_clean)
qed

lemma clean_twice_with_label:
  assumes "match_first labels (clean_sql_query s) \<noteq> None"
  shows "length (clean_sql_query (clean_sql_query s)) < length (clean_sql_query s)"
proof -
  let ?t = "clean_sql_query s"
  have r: "remove_code_blocks (strip ?t) = ?t"
    using clean_no_fence by (simp add: strip_clean remove_code_blocks_id)
  have "length (clean_sql_query ?t) \<le> length (cut_at_semicolon (strip_label ?t))"
    using r by (simp add: clean_sql_query_def[of ?t] length_strip_le)
  also have "\<dots> \<le> length (strip_label ?t)" by (rule length_cut_le)
  also have "\<dots> < length ?t" using assms by (rule strip_label_shorter)
  finally show ?thesis .
qed

lemma clean_idempotent_iff:
  "clean_sql_query (clean_sql_query s) = clean_sql_query s
     \<longleftrightarrow> match_first labels (clean_sql_query s) = None"
proof
  assume e: "clean_sql_query (clean_sql_query s) = clean_sql_query s"
  show "match_first labels (clean_sql_query s) = None"
  proof (rule ccontr)
    assume "match_first labels (clean_sql_query s) \<noteq> None"
    then have "length (clean_sql_query (clean_sql_query s)) < length (clean_sql_query s)"
      by (rule clean_twice_with_label)
    then show False using e by simp
  qed
next
  assume "match_first labels (clean_sql_query s) = None"
  then show "clean_sql_query (clean_sql_query s) = clean_sql_query s"
    by (rule clean_twice_without_label)
qed

lemma cut_strip_label_clean:
  "cut_at_semicolon (strip_label (clean_sql_query s)) = strip_label (clean_sql_query s)"
proof (cases "semicolon \<in> set (strip_label (clean_sql_query s))")
  case False
  then show ?thesis by (simp add: cut_at_semicolon_eq)
next
  case True
  let ?t = "clean_sql_query s" and ?u = "strip_label (clean_sql_query s)"
  have suf: "suffix ?u ?t" by (rule strip_label_suffix)
  have "semicolon \<in> set ?t" using True set_strip_label by blast
  then obtain b where b: "?t = b @ [semicolon]" "semicolon \<notin> set b"
    using clean_output_shape by blast
  have "?u \<noteq> []" using True by auto
  then obtain u' where u': "?u = u' @ [semicolon]" "suffix u' b"
    using suf b(1) by (auto simp: suffix_snoc)
  have "set u' \<subseteq> set b" using u'(2) by (rule set_mono_suffix)
  then have "semicolon \<notin> set u'" using b(2) by blast
  then show ?thesis using u'(1) by (simp add: cut_fixed)
qed

lemma strip_strip_label_clean:
  "strip (strip_label (clean_sql_query s)) = strip_label (clean_sql_query s)"
proof (cases "strip_label (clean_sql_query s) = []")
  case True
  then show ?thesis by (simp add: strip_id)
next
  case False
  let ?t = "clean_sql_query s" and ?u = "strip_label (clean_sql_query s)"
  obtain q where q: "?t = q @ ?u" using strip_label_suffix by (auto simp: suffix_def)
  have t: "?t \<noteq> []" using q False by auto
  have "strip ?t \<noteq> []" using t by (simp add: strip_clean)
  then have "\<not> isspace (last (strip ?t))" by (rule strip_last)
  then have lt: "\<not> isspace (last ?t)" by (simp add: strip_clean)
  have "last ?t = last ?u" using q False by (metis last_appendR)
  then have l: "\<not> isspace (last ?u)" using lt by simp
  have h: "\<not> isspace (hd ?u)"
  proof (cases "match_first labels ?t")
    case None
    then have "?u = ?t" by (simp add: strip_label_def)
    moreover have "strip ?t \<noteq> []" using t by (simp add: strip_clean)
    then have "\<not> isspace (hd (strip ?t))" by (rule strip_hd)
    then have "\<not> isspace (hd ?t)" by (simp add: strip_clean)
    ultimately show ?thesis by simp
  next
    case (Some r)
    then have u: "?u = dropWhile isspace r" by (simp add: strip_label_def)
    then have "dropWhile isspace r \<noteq> []" using False by simp
    then have "\<not> isspace (hd (dropWhile isspace r))" by (rule hd_dropWhile)
    then show ?thesis using u by simp
  qed
  show ?thesis using h l by (simp add: strip_id)
qed

lemma clean_twice_eq_strip_label: "clean_sql_query (clean_sql_query s) = strip_label (clean_sql_query s)"
proof -
  let ?t = "clean_sql_query s"
  have "remove_code_blocks (strip ?t) = ?t"
    using clean_no_fence by (simp add: strip_clean remove_code_blocks_id)
  then have "clean_sql_query ?t = strip (cut_at_semicolon (strip_label ?t))"
    by (simp add: clean_sql_query_def[of ?t])
  then show ?thesis by (simp add: cut_strip_label_clean strip_strip_label_clean)
qed

lemma clean_twice_label:
  assumes "match_first labels (clean_sql_query s) = Some r"
  shows "(\<exists>l p. l \<in> set labels \<and> list_all2 ieq l p \<and> clean_sql_query s = p @ r)
       \<and> clean_sql_query (clean_sql_query s) = lstrip r"
proof -
  obtain l p where "l \<in> set labels" "clean_sql_query s = p @ r" "list_all2 ieq l p"
    using assms match_first_split by blast
  then have "\<exists>l p. l \<in> set labels \<and> list_all2 ieq l p \<and> clean_sql_query s = p @ r"
    by blast
  moreover have "clean_sql_query (clean_sql_query s) = lstrip r"
    using assms by (simp add: clean_twice_eq_strip_label strip_label_def lstrip_def)
  ultimately show ?thesis by simp
qed

section \<open>The claims\<close>

text \<open>
  C1. Every \<open>QueryResponse\<close> that \<open>process_query\<close> returns has \<open>result\<close> set exactly
  when \<open>success\<close> is true and \<open>error\<close> set exactly when \<open>success\<close> is false, so
  exactly one of the two is set. (A request that ends in the HTTP 500 error returns no
  response at all.)
\<close>

theorem C1_response_invariant:
  assumes "process_query up init_database create_sql_chain request = Inr resp"
  shows "(result resp \<noteq> None \<longleftrightarrow> success resp) \<and> (error resp \<noteq> None \<longleftrightarrow> \<not> success resp)"
  using assms
  by (auto simp: process_query_def Let_def split: sum.splits prod.splits if_splits)

theorem C1_response_invariant_witness:
  "process_query (\<lambda>c. [c]) (Inr (\<lambda>q. Inl (lit ''no such column: nope'')))
      (Inr (\<lambda>q. Inr (lit ''SELECT nope FROM t;''))) \<lparr>question = lit ''q''\<rparr>
    = Inr \<lparr>success = False, result = None, sql_query = Some (lit ''SELECT nope FROM t;''),
          error = Some (lit ''SQL execution error: no such column: nope'')\<rparr>
   \<and> (result \<lparr>success = False, result = None, sql_query = Some (lit ''SELECT nope FROM t;''),
          error = Some (lit ''SQL execution error: no such column: nope'')\<rparr> \<noteq> None)
      = success \<lparr>success = False, result = None, sql_query = Some (lit ''SELECT nope FROM t;''),
          error = Some (lit ''SQL execution error: no such column: nope'')\<rparr>"
proof -
  have h: "process_query (\<lambda>c. [c]) (Inr (\<lambda>q. Inl (lit ''no such column: nope'')))
      (Inr (\<lambda>q. Inr (lit ''SELECT nope FROM t;''))) \<lparr>question = lit ''q''\<rparr>
    = Inr \<lparr>success = False, result = None, sql_query = Some (lit ''SELECT nope FROM t;''),
          error = Some (lit ''SQL execution error: no such column: nope'')\<rparr>"
    by (simp add: eval_defs process_query_def execute_sql_safely_def truthy_def)
  show ?thesis using h C1_response_invariant [OF h] by simp
qed

text \<open>
  C2. For an input that contains a semicolon, everything after the first semicolon is
  dropped and the semicolon is appended again: the output is the text before the first
  semicolon of the input as it stands after the first strip, the fence removal and the
  label removal, without the whitespace in front of it (the last strip), followed by
  \<open>;\<close>. The input \<open>SELECT 1; -- note: this does X\<close> gives \<open>SELECT 1;\<close>.
\<close>

theorem C2_truncate_at_first_semicolon:
  "(semicolon \<in> set s \<longrightarrow>
      clean_sql_query s =
        lstrip (takeWhile (\<lambda>c. c \<noteq> semicolon) (strip_label (remove_code_blocks (strip s))))
          @ [semicolon])
   \<and> clean_sql_query (lit ''SELECT 1; -- note: this does X'') = lit ''SELECT 1;''"
proof
  show "semicolon \<in> set s \<longrightarrow>
      clean_sql_query s =
        lstrip (takeWhile (\<lambda>c. c \<noteq> semicolon) (strip_label (remove_code_blocks (strip s))))
          @ [semicolon]"
    using clean_with_semicolon by blast
  show "clean_sql_query (lit ''SELECT 1; -- note: this does X'') = lit ''SELECT 1;''"
    by (simp add: eval_defs)
qed

theorem C2_truncate_at_first_semicolon_witness:
  "semicolon \<in> set (lit ''Query: SELECT 2; thanks'')
   \<and> clean_sql_query (lit ''Query: SELECT 2; thanks'') =
       lstrip (takeWhile (\<lambda>c. c \<noteq> semicolon)
         (strip_label (remove_code_blocks (strip (lit ''Query: SELECT 2; thanks''))))) @ [semicolon]
   \<and> clean_sql_query (lit ''Query: SELECT 2; thanks'') = lit ''SELECT 2;''"
proof -
  have h: "semicolon \<in> set (lit ''Query: SELECT 2; thanks'')"
    by (simp add: lit_def semicolon_def)
  have e: "clean_sql_query (lit ''Query: SELECT 2; thanks'') = lit ''SELECT 2;''"
    by (simp add: eval_defs)
  show ?thesis
    using h e C2_truncate_at_first_semicolon [of "lit ''Query: SELECT 2; thanks''"] by blast
qed

text \<open>
  C3. The claim: whenever the execution of the query raises, the handler answers with
  \<open>success = False\<close> and the error text. The code tests \<open>if error:\<close>, which is false
  of the empty string: an exception whose \<open>str(e)\<close> is empty (\<open>MemoryError()\<close>, raised
  when SQLite runs out of memory) is reported as a success with the no-results message.
\<close>

theorem C3_empty_error_text_reported_as_success:
  "process_query (\<lambda>c. [c]) (Inr (\<lambda>q. Inl [])) (Inr (\<lambda>q. Inr (lit ''SELECT nope FROM t;'')))
     \<lparr>question = lit ''q''\<rparr>
   = Inr \<lparr>success = True, result = Some no_results,
          sql_query = Some (lit ''SELECT nope FROM t;''), error = None\<rparr>"
  by (simp add: eval_defs process_query_def execute_sql_safely_def truthy_def
      format_sql_result_def)

text \<open>
  C4, as amended. When the raw output, after the first strip, begins with one of the
  labels in any letter case, \<open>clean_sql_query\<close> removes that leading label and the
  whitespace after it, once: the output is what fence removal, truncation and the last
  strip make of the text after the label. Labels further on in the text stay.
\<close>

theorem C4_leading_label_stripped:
  assumes "l \<in> set labels" and "case_variant l t" and "strip s = t @ rest"
  shows "clean_sql_query s = strip (cut_at_semicolon (lstrip (remove_code_blocks rest)))"
  using assms by (rule clean_strips_leading_label)

theorem C4_leading_label_stripped_witness:
  "lit ''SQL Query:'' \<in> set labels
   \<and> case_variant (lit ''SQL Query:'') (lit ''sql QUERY:'')
   \<and> strip (lit '' sql QUERY:  SELECT 1; '') = lit ''sql QUERY:'' @ lit ''  SELECT 1;''
   \<and> clean_sql_query (lit '' sql QUERY:  SELECT 1; '') =
       strip (cut_at_semicolon (lstrip (remove_code_blocks (lit ''  SELECT 1;''))))
   \<and> clean_sql_query (lit '' sql QUERY:  SELECT 1; '') = lit ''SELECT 1;''"
proof -
  have a: "lit ''SQL Query:'' \<in> set labels" by (simp add: labels_def)
  have b: "case_variant (lit ''SQL Query:'') (lit ''sql QUERY:'')"
    by (simp add: case_variant_def lit_def ascii_lower_def)
  have c: "strip (lit '' sql QUERY:  SELECT 1; '') = lit ''sql QUERY:'' @ lit ''  SELECT 1;''"
    by (simp add: eval_defs)
  have e: "clean_sql_query (lit '' sql QUERY:  SELECT 1; '') = lit ''SELECT 1;''"
    by (simp add: eval_defs)
  show ?thesis using a b c e C4_leading_label_stripped [OF a b c] by blast
qed

text \<open>
  C4, as stated, fails: \<open>SQL: SQL: SELECT 1;\<close> begins with the label \<open>SQL:\<close>, and
  the output \<open>SQL: SELECT 1;\<close> still contains it, since the pattern is anchored at the
  start and replaces one match.
\<close>

theorem C4_counterexample:
  "lit ''SQL:'' \<in> set labels
   \<and> strip (lit ''SQL: SQL: SELECT 1;'') = lit ''SQL:'' @ lit '' SQL: SELECT 1;''
   \<and> clean_sql_query (lit ''SQL: SQL: SELECT 1;'') = lit ''SQL: SELECT 1;''
   \<and> sublist (lit ''SQL:'') (clean_sql_query (lit ''SQL: SQL: SELECT 1;''))"
proof -
  have a: "lit ''SQL:'' \<in> set labels" by (simp add: labels_def)
  have b: "strip (lit ''SQL: SQL: SELECT 1;'') = lit ''SQL:'' @ lit '' SQL: SELECT 1;''"
    by (simp add: eval_defs)
  have c: "clean_sql_query (lit ''SQL: SQL: SELECT 1;'') = lit ''SQL: SELECT 1;''"
    by (simp add: eval_defs)
  have "sublist (lit ''SQL:'') (lit ''SQL: SELECT 1;'')" by (simp add: lit_def)
  then show ?thesis using a b c by simp
qed

text \<open>
  C5. The output of \<open>clean_sql_query\<close> never contains a fence marker (three backticks
  in a row), whatever the input, so in particular for an input with a fenced code block,
  with or without a language tag.
\<close>

theorem C5_no_fence_markers: "\<not> sublist fence (clean_sql_query s)"
  by (rule clean_no_fence)

theorem C5_no_fence_markers_witness:
  "sublist fence (lit ''```sql'' @ [newline] @ lit ''SELECT 1;'' @ [newline] @ lit ''```'')
   \<and> \<not> sublist fence
       (clean_sql_query (lit ''```sql'' @ [newline] @ lit ''SELECT 1;'' @ [newline] @ lit ''```''))"
proof -
  have "sublist fence (lit ''```sql'' @ [newline] @ lit ''SELECT 1;'' @ [newline] @ lit ''```'')"
    by (simp add: lit_fence_sql)
  then show ?thesis
    using C5_no_fence_markers
      [of "lit ''```sql'' @ [newline] @ lit ''SELECT 1;'' @ [newline] @ lit ''```''"]
    by blast
qed

text \<open>
  C6, as amended. Cleaning an output of \<open>clean_sql_query\<close> again returns it unchanged
  exactly when that output does not begin with one of the labels (as the label pattern
  matches them); when it does, the output is that label \<open>p\<close> followed by a rest \<open>r\<close>, and
  the second pass returns \<open>r\<close> without its leading whitespace: it removes the label and
  the whitespace after it, and nothing else.
\<close>

theorem C6_idempotent_unless_label:
  "(clean_sql_query (clean_sql_query s) = clean_sql_query s
      \<longleftrightarrow> match_first labels (clean_sql_query s) = None)
   \<and> (\<forall>r. match_first labels (clean_sql_query s) = Some r \<longrightarrow>
         (\<exists>l p. l \<in> set labels \<and> list_all2 ieq l p \<and> clean_sql_query s = p @ r)
         \<and> clean_sql_query (clean_sql_query s) = lstrip r)"
  using clean_idempotent_iff clean_twice_label by blast

theorem C6_idempotent_unless_label_witness:
  "match_first labels (clean_sql_query (lit ''```sql SELECT 1; -- done'')) = None
   \<and> clean_sql_query (clean_sql_query (lit ''```sql SELECT 1; -- done''))
       = clean_sql_query (lit ''```sql SELECT 1; -- done'')
   \<and> match_first labels (clean_sql_query (lit ''``` Query:  SELECT 2; ok''))
       = Some (lit ''  SELECT 2;'')
   \<and> clean_sql_query (lit ''``` Query:  SELECT 2; ok'') = lit ''Query:'' @ lit ''  SELECT 2;''
   \<and> clean_sql_query (clean_sql_query (lit ''``` Query:  SELECT 2; ok'')) = lit ''SELECT 2;''"
proof -
  have e: "clean_sql_query (lit ''```sql SELECT 1; -- done'') = lit ''SELECT 1;''"
    by (simp add: eval_defs)
  have "match_first labels (lit ''SELECT 1;'') = None"
    by (simp add: labels_def lit_def ieq_def)
  then have a: "match_first labels (clean_sql_query (lit ''```sql SELECT 1; -- done'')) = None"
    using e by simp
  have f: "clean_sql_query (lit ''``` Query:  SELECT 2; ok'') = lit ''Query:  SELECT 2;''"
    by (simp add: eval_defs)
  have "match_first labels (lit ''Query:  SELECT 2;'') = Some (lit ''  SELECT 2;'')"
    by (simp add: labels_def lit_def ieq_def)
  then have b: "match_first labels (clean_sql_query (lit ''``` Query:  SELECT 2; ok''))
       = Some (lit ''  SELECT 2;'')"
    using f by simp
  have g: "lstrip (lit ''  SELECT 2;'') = lit ''SELECT 2;''"
    by (simp add: lstrip_def lit_def isspace_def)
  have h: "lit ''Query:  SELECT 2;'' = lit ''Query:'' @ lit ''  SELECT 2;''"
    by (simp add: lit_def)
  have 1: "clean_sql_query (clean_sql_query (lit ''```sql SELECT 1; -- done''))
       = clean_sql_query (lit ''```sql SELECT 1; -- done'')"
    using a C6_idempotent_unless_label [of "lit ''```sql SELECT 1; -- done''"] by blast
  have 2: "clean_sql_query (clean_sql_query (lit ''``` Query:  SELECT 2; ok''))
       = lstrip (lit ''  SELECT 2;'')"
    using b C6_idempotent_unless_label [of "lit ''``` Query:  SELECT 2; ok''"] by blast
  show ?thesis using a 1 b f h 2 g by simp
qed

text \<open>
  C6, as stated, fails: the output \<open>SQL: SELECT 1;\<close> of a first pass is changed by a
  second pass.
\<close>

theorem C6_counterexample:
  "clean_sql_query (lit ''SQL: SQL: SELECT 1;'') = lit ''SQL: SELECT 1;''
   \<and> clean_sql_query (lit ''SQL: SELECT 1;'') = lit ''SELECT 1;''
   \<and> clean_sql_query (clean_sql_query (lit ''SQL: SQL: SELECT 1;''))
       \<noteq> clean_sql_query (lit ''SQL: SQL: SELECT 1;'')"
proof -
  have a: "clean_sql_query (lit ''SQL: SQL: SELECT 1;'') = lit ''SQL: SELECT 1;''"
    by (simp add: eval_defs)
  have b: "clean_sql_query (lit ''SQL: SELECT 1;'') = lit ''SELECT 1;''"
    by (simp add: eval_defs)
  have "lit ''SELECT 1;'' \<noteq> lit ''SQL: SELECT 1;''" by (simp add: lit_def)
  then show ?thesis using a b by simp
qed

text \<open>
  C7, as amended. For every execution result that is neither empty nor all whitespace,
  and every query text that contains \<open>COUNT\<close> in some letter case,
  \<open>format_sql_result\<close> returns \<open>The result is: \<close> followed by the result.
\<close>

theorem C7_count_prefix:
  assumes "\<exists>c\<in>set r. \<not> isspace c" and "contains_ci (lit ''COUNT'') query"
  shows "format_sql_result up (Some r) q query = lit ''The result is: '' @ r"
proof -
  have "strip r \<noteq> []" using assms(1) by (simp add: strip_empty_iff)
  moreover have "r \<noteq> []" using assms(1) by auto
  moreover have "sublist (lit ''COUNT'') (upper up query)"
    using count_upper assms(2) by (rule contains_ci_upper)
  ultimately show ?thesis by (simp add: format_sql_result_def)
qed

theorem C7_count_prefix_witness:
  "(\<exists>c\<in>set (lit ''[(59,)]''). \<not> isspace c)
   \<and> contains_ci (lit ''COUNT'') (lit ''select Count(*) from customers;'')
   \<and> format_sql_result (\<lambda>c. [c]) (Some (lit ''[(59,)]'')) (lit ''how many?'')
        (lit ''select Count(*) from customers;'') = lit ''The result is: [(59,)]''"
proof -
  have a: "\<exists>c\<in>set (lit ''[(59,)]''). \<not> isspace c"
    by (simp add: lit_def isspace_def)
  have b: "contains_ci (lit ''COUNT'') (lit ''select Count(*) from customers;'')"
    by (simp add: lit_def case_variant_def ascii_lower_def)
  have "lit ''The result is: '' @ lit ''[(59,)]'' = lit ''The result is: [(59,)]''"
    by (simp add: lit_def)
  then show ?thesis using a b C7_count_prefix [OF a b] by simp
qed

text \<open>
  C7, as stated, fails: the result \<open>' '\<close> is not empty, the query contains \<open>COUNT\<close>,
  and the answer is the no-results message, which does not start with
  \<open>The result is:\<close>.
\<close>

theorem C7_counterexample:
  "lit '' '' \<noteq> [] \<and> contains_ci (lit ''COUNT'') (lit ''SELECT COUNT(*) FROM t;'')
   \<and> format_sql_result (\<lambda>c. [c]) (Some (lit '' '')) (lit ''how many?'')
        (lit ''SELECT COUNT(*) FROM t;'') = no_results
   \<and> \<not> prefix (lit ''The result is:'') no_results"
  by (simp add: eval_defs format_sql_result_def no_results_def case_variant_def ascii_lower_def)

text \<open>
  C8. For every execution result that is empty or all whitespace, \<open>format_sql_result\<close>
  returns the fixed no-results message, whatever the question and the query text.
\<close>

theorem C8_blank_result_no_results:
  assumes "\<forall>c\<in>set r. isspace c"
  shows "format_sql_result up (Some r) q query = no_results"
proof -
  have "strip r = []" using assms by (simp add: strip_empty_iff)
  then show ?thesis by (simp add: format_sql_result_def)
qed

theorem C8_blank_result_no_results_witness:
  "(\<forall>c\<in>set (lit ''  '' @ [newline]). isspace c) = True
   \<and> format_sql_result (\<lambda>c. [c]) (Some (lit ''  '' @ [newline])) (lit ''how many?'')
        (lit ''SELECT COUNT(*) FROM t;'') = lit ''No results found for your query.''"
proof -
  have a: "\<forall>c\<in>set (lit ''  '' @ [newline]). isspace c"
    by (simp add: lit_def newline_def isspace_def)
  show ?thesis using a C8_blank_result_no_results [OF a] by (simp add: no_results_def)
qed

text \<open>
  C9. When the text has no semicolon after the first strip, the fence removal and the
  label removal, the output is that text, stripped once more, and no semicolon is
  appended: the output has none.
\<close>

theorem C9_no_semicolon_unterminated:
  assumes "semicolon \<notin> set (strip_label (remove_code_blocks (strip s)))"
  shows "clean_sql_query s = strip (strip_label (remove_code_blocks (strip s)))
       \<and> semicolon \<notin> set (clean_sql_query s)"
proof -
  have c: "clean_sql_query s = strip (strip_label (remove_code_blocks (strip s)))"
    using assms by (rule clean_without_semicolon)
  moreover have "semicolon \<notin> set (strip (strip_label (remove_code_blocks (strip s))))"
    using assms set_strip_subset by blast
  ultimately show ?thesis by simp
qed

theorem C9_no_semicolon_unterminated_witness:
  "semicolon \<notin> set (strip_label (remove_code_blocks (strip (lit '' SQL: SELECT 1 ''))))
   \<and> clean_sql_query (lit '' SQL: SELECT 1 '') = lit ''SELECT 1''
   \<and> semicolon \<notin> set (clean_sql_query (lit '' SQL: SELECT 1 ''))"
proof -
  have a: "semicolon \<notin> set (strip_label (remove_code_blocks (strip (lit '' SQL: SELECT 1 ''))))"
    by (simp add: eval_defs)
  have e: "clean_sql_query (lit '' SQL: SELECT 1 '') = lit ''SELECT 1''"
    by (simp add: eval_defs)
  show ?thesis using a e C9_no_semicolon_unterminated [OF a] by blast
qed

text \<open>
  C10. For an input with at least one semicolon the output has exactly one semicolon,
  and it is the last character of the output.
\<close>

theorem C10_one_semicolon_at_end:
  assumes "semicolon \<in> set s"
  shows "count_list (clean_sql_query s) semicolon = 1
       \<and> clean_sql_query s \<noteq> [] \<and> last (clean_sql_query s) = semicolon"
proof -
  let ?b = "lstrip (takeWhile (\<lambda>c. c \<noteq> semicolon) (strip_label (remove_code_blocks (strip s))))"
  have c: "clean_sql_query s = ?b @ [semicolon]" using assms by (rule clean_with_semicolon)
  have "semicolon \<notin> set ?b" by (rule semicolon_not_in_lstrip_takeWhile)
  then have "count_list ?b semicolon = 0" by simp
  then show ?thesis using c by simp
qed

theorem C10_one_semicolon_at_end_witness:
  "semicolon \<in> set (lit ''SELECT 1; SELECT 2; SELECT 3;'')
   \<and> count_list (clean_sql_query (lit ''SELECT 1; SELECT 2; SELECT 3;'')) semicolon = 1
   \<and> last (clean_sql_query (lit ''SELECT 1; SELECT 2; SELECT 3;'')) = semicolon"
proof -
  have a: "semicolon \<in> set (lit ''SELECT 1; SELECT 2; SELECT 3;'')"
    by (simp add: lit_def semicolon_def)
  show ?thesis using a C10_one_semicolon_at_end [OF a] by blast
qed

end
